theory Spec2Isabelle
  imports Main "HOL-Library.AList"
begin

section \<open>The SMILES tokenizer of deepchem/feat/smiles\_tokenizer.py\<close>

subsection \<open>Regular expressions as Python's \<open>re\<close> matches them\<close>

text \<open>
  The fragment of the pattern language that \<open>SMI_REGEX_PATTERN\<close> is written in.
  A character class matches one character: a literal (\<open>B\<close>, \<open>\(\<close>), a negated
  one-character set (\<open>[^\]]\<close>) or a range (\<open>[0-9]\<close>).
\<close>

datatype cclass =
    Lit char
  | NotLit char
  | Range char char

datatype regex =
    Atom cclass
  | Seq regex regex
  | Alt regex regex
  | Opt regex
  | Plus cclass

fun in_class :: "cclass \<Rightarrow> char \<Rightarrow> bool" where
  "in_class (Lit a) c = (c = a)"
| "in_class (NotLit a) c = (c \<noteq> a)"
| "in_class (Range lo hi) c = (of_char lo \<le> (of_char c :: nat) \<and> (of_char c :: nat) \<le> of_char hi)"

text \<open>
  \<open>x+\<close> on a character class, greedy: the remainders after one or more characters of
  the class, the longest run first, as the backtracking matcher tries them.
\<close>

fun greedy_plus :: "cclass \<Rightarrow> string \<Rightarrow> string list" where
  "greedy_plus cl [] = []"
| "greedy_plus cl (c # s) = (if in_class cl c then greedy_plus cl s @ [s] else [])"

text \<open>
  The backtracking matcher, anchored at the start of the text: every way the
  expression matches a prefix, as the text left over, in the order in which \<open>re\<close>
  tries them (the left alternative first; an optional part first present, then
  absent). The head of the list is the match \<open>re\<close> reports.
\<close>

fun rx_match :: "regex \<Rightarrow> string \<Rightarrow> string list" where
  "rx_match (Atom cl) s = (case s of [] \<Rightarrow> [] | c # t \<Rightarrow> if in_class cl c then [t] else [])"
| "rx_match (Seq a b) s = concat (map (rx_match b) (rx_match a s))"
| "rx_match (Alt a b) s = rx_match a s @ rx_match b s"
| "rx_match (Opt a) s = rx_match a s @ [s]"
| "rx_match (Plus cl) s = greedy_plus cl s"

text \<open>
  \<open>re.findall\<close> with a pattern whose one group is the whole pattern: the matches
  from left to right, none overlapping. Where nothing matches, the scan moves one
  character on and that character is in no match. After an empty match the scan
  stays where it is and takes only a match that advances (\<open>adv\<close>), as \<open>re\<close> does
  since Python 3.7.
\<close>

function findall :: "regex \<Rightarrow> bool \<Rightarrow> string \<Rightarrow> string list" where
  "findall r adv s =
     (case filter (\<lambda>t. \<not> adv \<or> length t < length s) (rx_match r s) of
        [] \<Rightarrow> (if s = [] then [] else findall r False (tl s))
      | t # _ \<Rightarrow>
          if length t < length s
          then take (length s - length t) s # findall r False t
          else [] # (if adv then [] else findall r True s))"
  by pat_completeness auto
termination
  by (relation "measure (\<lambda>(r, adv, s). 2 * length s + (if adv then 0 else 1))")
     (auto simp: neq_Nil_conv)

declare findall.simps [simp del]

subsection \<open>The pattern and the basic tokenizer\<close>

abbreviation chr_lit :: "char \<Rightarrow> regex" where
  "chr_lit c \<equiv> Atom (Lit c)"

fun alternatives :: "regex \<Rightarrow> regex list \<Rightarrow> regex" where
  "alternatives r [] = r"
| "alternatives r (q # qs) = Alt r (alternatives q qs)"

text \<open>
  \<^verbatim>\<open>(\[[^\]]+]|Br?|Cl?|N|O|S|P|F|I|b|c|n|o|s|p|\(|\)|\.|=|\<close> (line break)
  \<^verbatim>\<open>#|-|\+|\\|\/|:|~|@|\?|>>?|\*|\$|\%[0-9]{2}|[0-9])\<close>

  The pattern is a raw triple-quoted string that runs over two source lines and is
  compiled without \<open>re.VERBOSE\<close>, so the line break between \<^verbatim>\<open>=|\<close> and
  \<^verbatim>\<open>#|\<close> is part of it: that alternative is a newline followed by \<open>#\<close>.
\<close>

definition SMI_REGEX_PATTERN :: regex where
  "SMI_REGEX_PATTERN = alternatives
     (Seq (chr_lit CHR ''['') (Seq (Plus (NotLit CHR '']'')) (chr_lit CHR '']'')))
     [ Seq (chr_lit CHR ''B'') (Opt (chr_lit CHR ''r'')),
       Seq (chr_lit CHR ''C'') (Opt (chr_lit CHR ''l'')),
       chr_lit CHR ''N'', chr_lit CHR ''O'', chr_lit CHR ''S'', chr_lit CHR ''P'',
       chr_lit CHR ''F'', chr_lit CHR ''I'',
       chr_lit CHR ''b'', chr_lit CHR ''c'', chr_lit CHR ''n'', chr_lit CHR ''o'',
       chr_lit CHR ''s'', chr_lit CHR ''p'',
       chr_lit CHR ''('', chr_lit CHR '')'', chr_lit CHR ''.'', chr_lit CHR ''='',
       Seq (chr_lit (CHR 0x0A)) (chr_lit CHR ''#''),
       chr_lit CHR ''-'', chr_lit CHR ''+'', chr_lit (CHR 0x5C), chr_lit CHR ''/'',
       chr_lit CHR '':'', chr_lit CHR ''~'', chr_lit CHR ''@'', chr_lit CHR ''?'',
       Seq (chr_lit CHR ''>'') (Opt (chr_lit CHR ''>'')),
       chr_lit CHR ''*'', chr_lit CHR ''$'',
       Seq (chr_lit CHR ''%'')
         (Seq (Atom (Range CHR ''0'' CHR ''9'')) (Atom (Range CHR ''0'' CHR ''9''))),
       Atom (Range CHR ''0'' CHR ''9'') ]"

text \<open>\<open>BasicSmilesTokenizer.tokenize\<close>, with the default pattern of the constructor.\<close>

definition tokenize :: "string \<Rightarrow> string list" where
  "tokenize text = findall SMI_REGEX_PATTERN False text"

text \<open>
  A lexeme is a text that the pattern matches from its first to its last character.
  A covered text is a sequence of lexemes written one after the other.
\<close>

definition lexeme :: "string \<Rightarrow> bool" where
  "lexeme l = ([] \<in> set (rx_match SMI_REGEX_PATTERN l))"

inductive covered :: "string \<Rightarrow> bool" where
  covered_Nil: "covered []"
| covered_lexeme: "lexeme l \<Longrightarrow> covered t \<Longrightarrow> covered (l @ t)"

subsection \<open>Python's built-ins, as the tokenizer uses them\<close>

text \<open>
  A Python \<open>str\<close> is modelled as a \<open>string\<close> whose characters are the code points
  below 256; an \<open>int\<close> as \<open>int\<close>; the value \<open>None\<close> of an optional result as
  \<open>None\<close>.
\<close>

datatype py_error =
    ValueError_vocab_file string
  | ValueError_max_empty
  | FileNotFoundError string

definition newline :: char where
  "newline = CHR 0x0A"

text \<open>\<open>s.rstrip(chars)\<close>: every trailing character that is one of \<open>chars\<close> goes.\<close>

definition rstrip :: "string \<Rightarrow> string \<Rightarrow> string" where
  "rstrip s chars = rev (dropWhile (\<lambda>c. c \<in> set chars) (rev s))"

text \<open>
  \<open>s.strip()\<close>: leading and trailing whitespace goes. Below 256 Python's
  whitespace is TAB, LF, VT, FF, CR, FS, GS, RS, US, the space, NEL and NBSP.
\<close>

definition isspace :: "char \<Rightarrow> bool" where
  "isspace c = (of_char c \<in> {9, 10, 11, 12, 13, 28, 29, 30, 31, 32, 133, 160 :: nat})"

definition strip :: "string \<Rightarrow> string" where
  "strip s = rev (dropWhile isspace (rev (dropWhile isspace s)))"

text \<open>\<open>s.startswith(prefix)\<close>.\<close>

definition startswith :: "string \<Rightarrow> string \<Rightarrow> bool" where
  "startswith s pre = (take (length pre) s = pre)"

text \<open>\<open>sep.join(xs)\<close>.\<close>

fun join :: "string \<Rightarrow> string list \<Rightarrow> string" where
  "join sep [] = []"
| "join sep [x] = x"
| "join sep (x # y # ys) = x @ sep @ join sep (y # ys)"

text \<open>
  \<open>s.replace(old, new)\<close>: one scan from the left; each occurrence of \<open>old\<close> found is
  replaced and the scan goes on after it, so occurrences do not overlap and the text
  put in is not scanned again. With an empty \<open>old\<close>, \<open>new\<close> is put before every
  character and at the end.
\<close>

function replace_scan :: "string \<Rightarrow> string \<Rightarrow> string \<Rightarrow> string" where
  "replace_scan old new s =
     (if s = [] then []
      else if old \<noteq> [] \<and> take (length old) s = old
      then new @ replace_scan old new (drop (length old) s)
      else hd s # replace_scan old new (tl s))"
  by pat_completeness auto
termination
  by (relation "measure (\<lambda>(old, new, s). length s)") (auto simp: neq_Nil_conv)

definition replace :: "string \<Rightarrow> string \<Rightarrow> string \<Rightarrow> string" where
  "replace s old new =
     (if old = [] then new @ concat (map (\<lambda>c. c # new) s) else replace_scan old new s)"

text \<open>
  \<open>reader.readlines()\<close> on the decoded text of a file: the text cut after every
  newline, each line keeping its newline; a last line that no newline ends is a line
  too.
\<close>

fun readlines :: "string \<Rightarrow> string list" where
  "readlines [] = []"
| "readlines (c # cs) =
     (if c = newline then [c] # readlines cs
      else (case readlines cs of [] \<Rightarrow> [[c]] | l # ls \<Rightarrow> (c # l) # ls))"

text \<open>\<open>enumerate(xs)\<close>, counting from \<open>n\<close>.\<close>

fun enumerate_from :: "int \<Rightarrow> 'a list \<Rightarrow> (int \<times> 'a) list" where
  "enumerate_from n [] = []"
| "enumerate_from n (x # xs) = (n, x) # enumerate_from (n + 1) xs"

text \<open>\<open>max(xs)\<close> raises \<open>ValueError\<close> on an empty list.\<close>

definition py_max :: "int list \<Rightarrow> py_error + int" where
  "py_max xs = (case xs of [] \<Rightarrow> Inl ValueError_max_empty | x # ys \<Rightarrow> Inr (fold max ys x))"

text \<open>
  A \<open>collections.OrderedDict\<close> is the list of its items in insertion order, its keys
  distinct. \<open>d[k] = v\<close> is \<^const>\<open>AList.update\<close>: a key already there keeps its
  place and takes the new value, a new key goes to the end. \<open>d.get(k)\<close> is
  \<^const>\<open>map_of\<close>. \<open>OrderedDict(pairs)\<close> stores the pairs one after the other.
\<close>

type_synonym ('k, 'v) ordered_dict = "('k \<times> 'v) list"

definition OrderedDict :: "('k \<times> 'v) list \<Rightarrow> ('k, 'v) ordered_dict" where
  "OrderedDict pairs = fold (\<lambda>(k, v) d. AList.update k v d) pairs []"

subsection \<open>The vocabulary\<close>

text \<open>
  The file system is a map from the paths of the regular files to their decoded text:
  \<open>os.path.isfile(p)\<close> is \<open>fs p \<noteq> None\<close>, and \<open>open\<close> of a path that is no file
  raises \<open>FileNotFoundError\<close>.
\<close>

type_synonym filesystem = "string \<rightharpoonup> string"

definition load_vocab :: "filesystem \<Rightarrow> string \<Rightarrow> py_error + (string, int) ordered_dict" where
  "load_vocab fs vocab_file =
     (case fs vocab_file of
        None \<Rightarrow> Inl (FileNotFoundError vocab_file)
      | Some text \<Rightarrow>
          let tokens = readlines text
          in Inr (fold (\<lambda>(index, token) vocab. AList.update (rstrip token [newline]) index vocab)
                    (enumerate_from 0 tokens) []))"

subsection \<open>The vocabulary-aware tokenizer\<close>

text \<open>
  What \<open>SmilesTokenizer\<close> inherits from \<open>BertTokenizer\<close> of the transformers
  library and reads: the unknown token, the ids of the special tokens and the
  maximal length. The base class is not part of this repository; its attributes are
  taken as they are after \<open>super().__init__\<close> has returned.
\<close>

record BertTokenizer =
  unk_token :: string
  cls_token_id :: int
  sep_token_id :: int
  pad_token_id :: int
  max_len :: int

record SmilesTokenizer = BertTokenizer +
  max_len_single_sentence :: int
  max_len_sentences_pair :: int
  vocab :: "(string, int) ordered_dict"
  highest_unused_index :: int
  ids_to_tokens :: "(int, string) ordered_dict"

text \<open>
  \<open>SmilesTokenizer.__init__\<close>, from the statement after \<open>super().__init__\<close> on. It
  raises \<open>ValueError\<close> when the path is no file, and \<open>max\<close> raises \<open>ValueError\<close>
  when no key of the vocabulary starts with \<open>[unused\<close>.
\<close>

definition SmilesTokenizer_init ::
    "filesystem \<Rightarrow> BertTokenizer \<Rightarrow> string \<Rightarrow> py_error + SmilesTokenizer" where
  "SmilesTokenizer_init fs base vocab_file =
     (if fs vocab_file = None then Inl (ValueError_vocab_file vocab_file)
      else case load_vocab fs vocab_file of
        Inl e \<Rightarrow> Inl e
      | Inr vocab' \<Rightarrow>
          (case py_max (map fst (filter (\<lambda>(i, v). startswith v ''[unused'')
                                   (enumerate_from 0 (map fst vocab')))) of
             Inl e \<Rightarrow> Inl e
           | Inr highest \<Rightarrow>
               Inr \<lparr> unk_token = unk_token base,
                     cls_token_id = cls_token_id base,
                     sep_token_id = sep_token_id base,
                     pad_token_id = pad_token_id base,
                     max_len = max_len base,
                     max_len_single_sentence = max_len base - 2,
                     max_len_sentences_pair = max_len base - 3,
                     vocab = vocab',
                     highest_unused_index = highest,
                     ids_to_tokens = OrderedDict (map (\<lambda>(tok, ids). (ids, tok)) vocab') \<rparr>))"

definition vocab_size :: "SmilesTokenizer \<Rightarrow> nat" where
  "vocab_size self = length (vocab self)"

definition vocab_list :: "SmilesTokenizer \<Rightarrow> string list" where
  "vocab_list self = map fst (vocab self)"

text \<open>
  \<open>self.vocab.get(token, self.vocab.get(self.unk_token))\<close>: the result is \<open>None\<close>
  when neither the token nor the unknown token is a key.
\<close>

definition convert_token_to_id :: "SmilesTokenizer \<Rightarrow> string \<Rightarrow> int option" where
  "convert_token_to_id self token =
     (case map_of (vocab self) token of
        Some i \<Rightarrow> Some i
      | None \<Rightarrow> map_of (vocab self) (unk_token self))"

definition convert_id_to_token :: "SmilesTokenizer \<Rightarrow> int \<Rightarrow> string" where
  "convert_id_to_token self index =
     (case map_of (ids_to_tokens self) index of
        Some tok \<Rightarrow> tok
      | None \<Rightarrow> unk_token self)"

definition convert_tokens_to_string :: "string list \<Rightarrow> string" where
  "convert_tokens_to_string tokens = strip (replace (join '' '' tokens) '' ##'' [])"

text \<open>
  \<open>[self.pad_token_id] * n\<close> is the empty list when \<open>n\<close> is zero or negative.
\<close>

definition add_padding_tokens :: "SmilesTokenizer \<Rightarrow> int list \<Rightarrow> int \<Rightarrow> bool \<Rightarrow> int list" where
  "add_padding_tokens self token_ids len right =
     (let padding = replicate (nat (len - int (length token_ids))) (pad_token_id self)
      in if right then token_ids @ padding else padding @ token_ids)"

text \<open>
  The two wrappers build their result with \<open>+\<close> on lists, which allocates a new list
  and leaves its operands as they are. To state that, lists are objects of a store:
  the store is the list of the list objects allocated so far, a reference is an
  index into it. The arguments are references, as in Python.
\<close>

type_synonym store = "int list list"

type_synonym ref = nat

definition list_display :: "int list \<Rightarrow> store \<Rightarrow> ref \<times> store" where
  "list_display xs h = (length h, h @ [xs])"

definition list_add :: "ref \<Rightarrow> ref \<Rightarrow> store \<Rightarrow> ref \<times> store" where
  "list_add a b h = (length h, h @ [h ! a @ h ! b])"

definition add_special_tokens_ids_single_sequence ::
    "SmilesTokenizer \<Rightarrow> ref \<Rightarrow> store \<Rightarrow> ref \<times> store" where
  "add_special_tokens_ids_single_sequence self token_ids h =
     (let (c, h1) = list_display [cls_token_id self] h;
          (t1, h2) = list_add c token_ids h1;
          (s, h3) = list_display [sep_token_id self] h2
      in list_add t1 s h3)"

definition add_special_tokens_ids_sequence_pair ::
    "SmilesTokenizer \<Rightarrow> ref \<Rightarrow> ref \<Rightarrow> store \<Rightarrow> ref \<times> store" where
  "add_special_tokens_ids_sequence_pair self token_ids_0 token_ids_1 h =
     (let (sep, h1) = list_display [sep_token_id self] h;
          (cls, h2) = list_display [cls_token_id self] h1;
          (t1, h3) = list_add cls token_ids_0 h2;
          (t2, h4) = list_add t1 sep h3;
          (t3, h5) = list_add t2 token_ids_1 h4
      in list_add t3 sep h5)"

subsection \<open>The string reconstruction, in the words of the specification\<close>

text \<open>
  What the specification says \<open>tokens_to_string\<close> does, written down independently of
  the Python built-ins above, to be compared with \<open>convert_tokens_to_string\<close>: the
  tokens are joined with a single space between neighbours; then every occurrence of
  the marker, a space and two hash signs, is removed, reading from the left; then the
  whitespace at both ends is trimmed.
\<close>

definition join_with_space :: "string list \<Rightarrow> string" where
  "join_with_space tokens =
     (case tokens of [] \<Rightarrow> [] | t # ts \<Rightarrow> t @ concat (map (\<lambda>u. CHR '' '' # u) ts))"

fun remove_marker :: "string \<Rightarrow> string" where
  "remove_marker (a # b # c # rest) =
     (if a = CHR '' '' \<and> b = CHR ''#'' \<and> c = CHR ''#'' then remove_marker rest
      else a # remove_marker (b # c # rest))"
| "remove_marker s = s"

definition trim :: "string \<Rightarrow> string" where
  "trim s = dropWhile isspace (rev (dropWhile isspace (rev s)))"

definition spec_tokens_to_string :: "string list \<Rightarrow> string" where
  "spec_tokens_to_string tokens = trim (remove_marker (join_with_space tokens))"

subsection \<open>A small vocabulary for examples\<close>

text \<open>
  The first lines of a BERT-style SMILES vocabulary file: the padding token, ten unused
  slots, the other special tokens and a few atoms and bonds.
\<close>

definition example_tokens :: "string list" where
  "example_tokens =
     [''[PAD]'', ''[unused1]'', ''[unused2]'', ''[unused3]'', ''[unused4]'', ''[unused5]'',
      ''[unused6]'', ''[unused7]'', ''[unused8]'', ''[unused9]'', ''[unused10]'', ''[UNK]'',
      ''[CLS]'', ''[SEP]'', ''[MASK]'', ''c'', ''C'', ''('', '')'', ''O'', ''1'', ''2'', ''='',
      ''N'']"

definition example_vocab_text :: string where
  "example_vocab_text = concat (map (\<lambda>t. t @ [newline]) example_tokens)"

definition example_fs :: filesystem where
  "example_fs = Map.empty(''vocab.txt'' \<mapsto> example_vocab_text)"

definition example_base :: BertTokenizer where
  "example_base =
     \<lparr> unk_token = ''[UNK]'', cls_token_id = 12, sep_token_id = 13, pad_token_id = 0,
       max_len = 512 \<rparr>"

definition example_tokenizer :: SmilesTokenizer where
  "example_tokenizer =
     \<lparr> unk_token = ''[UNK]'', cls_token_id = 12, sep_token_id = 13, pad_token_id = 0,
       max_len = 512, max_len_single_sentence = 510, max_len_sentences_pair = 509,
       vocab = map (\<lambda>(i, t). (t, i)) (enumerate_from 0 example_tokens),
       highest_unused_index = 10,
       ids_to_tokens = enumerate_from 0 example_tokens \<rparr>"

section \<open>Properties\<close>

subsection \<open>Facts about the basic tokenizer\<close>

lemma greedy_plus_then:
  assumes "\<forall>c \<in> set x. in_class cl c" and "\<not> in_class cl d"
    and "\<And>b u. in_class cl b \<Longrightarrow> f (b # u) = []"
  shows "concat (map f (greedy_plus cl (x @ d # t))) = (if x = [] then [] else f (d # t))"
  using assms(1)
proof (induction x)
  case Nil
  show ?case using assms(2) by simp
next
  case (Cons a x)
  have a: "in_class cl a" and xs: "\<forall>c \<in> set x. in_class cl c"
    using Cons.prems by simp_all
  have IH: "concat (map f (greedy_plus cl (x @ d # t))) = (if x = [] then [] else f (d # t))"
    using Cons.IH xs by blast
  have unfold: "greedy_plus cl ((a # x) @ d # t) = greedy_plus cl (x @ d # t) @ [x @ d # t]"
    using a by simp
  have last: "f (x @ d # t) = (if x = [] then f (d # t) else [])"
  proof (cases x)
    case Nil
    then show ?thesis by simp
  next
    case (Cons b x')
    then have "in_class cl b" using xs by simp
    then have "f (b # (x' @ d # t)) = []" by (rule assms(3))
    then show ?thesis using Cons by simp
  qed
  have "concat (map f (greedy_plus cl ((a # x) @ d # t)))
          = concat (map f (greedy_plus cl (x @ d # t))) @ f (x @ d # t)"
    unfolding unfold by simp
  also have "\<dots> = f (d # t)"
    unfolding IH last by simp
  finally show ?case by simp
qed

lemma bracket_atom_match:
  assumes "x \<noteq> []" and "\<forall>c \<in> set x. c \<noteq> CHR '']''"
  shows "rx_match (Seq (chr_lit CHR ''['') (Seq (Plus (NotLit CHR '']'')) (chr_lit CHR '']'')))
           (CHR ''['' # x @ CHR '']'' # t) = [t]"
proof -
  let ?cl = "NotLit CHR '']''"
  let ?f = "rx_match (chr_lit CHR '']'')"
  have 1: "\<forall>c \<in> set x. in_class ?cl c" using assms(2) by simp
  have 2: "\<not> in_class ?cl CHR '']''" by simp
  have 3: "\<And>b u. in_class ?cl b \<Longrightarrow> ?f (b # u) = []" by simp
  have body: "concat (map ?f (greedy_plus ?cl (x @ CHR '']'' # t))) = ?f (CHR '']'' # t)"
    using greedy_plus_then [of x ?cl "CHR '']''" ?f t, OF 1 2 3] assms(1) by simp
  have "rx_match (Seq (chr_lit CHR ''['') (Seq (Plus ?cl) (chr_lit CHR '']'')))
           (CHR ''['' # x @ CHR '']'' # t)
        = rx_match (Seq (Plus ?cl) (chr_lit CHR '']'')) (x @ CHR '']'' # t)"
    by simp
  also have "\<dots> = concat (map ?f (greedy_plus ?cl (x @ CHR '']'' # t)))"
    by (simp only: rx_match.simps)
  also have "\<dots> = [t]"
    unfolding body by simp
  finally show ?thesis .
qed

lemma digit_cases:
  "(48 \<le> (of_char c :: nat) \<and> (of_char c :: nat) \<le> 57) = (c \<in> set ''0123456789'')"
proof
  assume a: "48 \<le> (of_char c :: nat) \<and> (of_char c :: nat) \<le> 57"
  then have "(of_char c :: nat) = of_char CHR ''0'' \<or> (of_char c :: nat) = of_char CHR ''1''
      \<or> (of_char c :: nat) = of_char CHR ''2'' \<or> (of_char c :: nat) = of_char CHR ''3''
      \<or> (of_char c :: nat) = of_char CHR ''4'' \<or> (of_char c :: nat) = of_char CHR ''5''
      \<or> (of_char c :: nat) = of_char CHR ''6'' \<or> (of_char c :: nat) = of_char CHR ''7''
      \<or> (of_char c :: nat) = of_char CHR ''8'' \<or> (of_char c :: nat) = of_char CHR ''9''"
    by simp arith
  then have "c = CHR ''0'' \<or> c = CHR ''1'' \<or> c = CHR ''2'' \<or> c = CHR ''3'' \<or> c = CHR ''4''
      \<or> c = CHR ''5'' \<or> c = CHR ''6'' \<or> c = CHR ''7'' \<or> c = CHR ''8'' \<or> c = CHR ''9''"
    by (simp only: of_char_eq_iff)
  then show "c \<in> set ''0123456789''" by auto
next
  assume "c \<in> set ''0123456789''"
  then show "48 \<le> (of_char c :: nat) \<and> (of_char c :: nat) \<le> 57" by auto
qed

lemma lexeme_Nil: "\<not> lexeme []"
  by (simp add: lexeme_def SMI_REGEX_PATTERN_def)

lemma covered_cases:
  assumes "covered (c # t)"
  obtains l t0 where "lexeme (c # l)" "covered t0" "t = l @ t0"
  using assms
proof (cases rule: covered.cases)
  case (covered_lexeme l t0)
  then show ?thesis using that lexeme_Nil by (cases l) auto
qed

lemma lexeme_first:
  assumes "lexeme (c # l)"
  shows "c \<noteq> CHR ''r'' \<and> c \<noteq> CHR ''l'' \<and> (c = CHR ''>'' \<longrightarrow> l = [] \<or> l = ''>'')"
  using assms
  by (simp add: lexeme_def SMI_REGEX_PATTERN_def digit_cases) (elim disjE conjE; simp)

lemma covered_hd:
  assumes "covered (c # t)"
  shows "c \<noteq> CHR ''r'' \<and> c \<noteq> CHR ''l'' \<and> (c = CHR ''>'' \<longrightarrow> covered t)"
proof -
  from assms obtain l t0 where l: "lexeme (c # l)" "covered t0" "t = l @ t0"
    by (rule covered_cases)
  have "lexeme ''>''" by (simp add: lexeme_def SMI_REGEX_PATTERN_def)
  then have gt: "covered (''>'' @ t0)" using l(2) by (rule covered_lexeme)
  from lexeme_first [OF l(1)] show ?thesis using l(2,3) gt by auto
qed

lemma greedy_plus_mem:
  "u \<in> set (greedy_plus cl s) \<longleftrightarrow> (\<exists>x. x \<noteq> [] \<and> s = x @ u \<and> (\<forall>c \<in> set x. in_class cl c))"
proof (induction s)
  case Nil
  then show ?case by simp
next
  case (Cons a s)
  show ?case
  proof
    assume "u \<in> set (greedy_plus cl (a # s))"
    then have a: "in_class cl a" and "u \<in> set (greedy_plus cl s) \<or> u = s"
      by (auto split: if_splits)
    then show "\<exists>x. x \<noteq> [] \<and> a # s = x @ u \<and> (\<forall>c \<in> set x. in_class cl c)"
    proof (elim disjE)
      assume "u \<in> set (greedy_plus cl s)"
      then obtain x where "x \<noteq> []" "s = x @ u" "\<forall>c \<in> set x. in_class cl c"
        using Cons.IH by blast
      then have "a # x \<noteq> [] \<and> a # s = (a # x) @ u \<and> (\<forall>c \<in> set (a # x). in_class cl c)"
        using a by simp
      then show ?thesis by blast
    next
      assume "u = s"
      then have "[a] \<noteq> [] \<and> a # s = [a] @ u \<and> (\<forall>c \<in> set [a]. in_class cl c)"
        using a by simp
      then show ?thesis by blast
    qed
  next
    assume "\<exists>x. x \<noteq> [] \<and> a # s = x @ u \<and> (\<forall>c \<in> set x. in_class cl c)"
    then obtain x where x: "x \<noteq> []" "a # s = x @ u" "\<forall>c \<in> set x. in_class cl c"
      by blast
    then obtain x' where x': "x = a # x'" "s = x' @ u"
      by (cases x) auto
    show "u \<in> set (greedy_plus cl (a # s))"
    proof (cases "x' = []")
      case True
      then show ?thesis using x x' by simp
    next
      case False
      then have "u \<in> set (greedy_plus cl s)" using Cons.IH x x' by auto
      then show ?thesis using x x' by simp
    qed
  qed
qed

lemma lexeme_bracket:
  assumes "lexeme (CHR ''['' # l)"
  shows "\<exists>x. x \<noteq> [] \<and> (\<forall>c \<in> set x. c \<noteq> CHR '']'') \<and> l = x @ '']''"
proof -
  from assms have "'']'' \<in> set (greedy_plus (NotLit CHR '']'') l)"
    by (simp add: lexeme_def SMI_REGEX_PATTERN_def)
  then show ?thesis unfolding greedy_plus_mem by auto
qed

lemma digit_literals:
  "rx_match SMI_REGEX_PATTERN (CHR ''0'' # t) = [t]"
  "rx_match SMI_REGEX_PATTERN (CHR ''1'' # t) = [t]"
  "rx_match SMI_REGEX_PATTERN (CHR ''2'' # t) = [t]"
  "rx_match SMI_REGEX_PATTERN (CHR ''3'' # t) = [t]"
  "rx_match SMI_REGEX_PATTERN (CHR ''4'' # t) = [t]"
  "rx_match SMI_REGEX_PATTERN (CHR ''5'' # t) = [t]"
  "rx_match SMI_REGEX_PATTERN (CHR ''6'' # t) = [t]"
  "rx_match SMI_REGEX_PATTERN (CHR ''7'' # t) = [t]"
  "rx_match SMI_REGEX_PATTERN (CHR ''8'' # t) = [t]"
  "rx_match SMI_REGEX_PATTERN (CHR ''9'' # t) = [t]"
  by (simp_all add: SMI_REGEX_PATTERN_def)

lemma digit_match:
  assumes "48 \<le> (of_char c :: nat) \<and> (of_char c :: nat) \<le> 57"
  shows "rx_match SMI_REGEX_PATTERN (c # t) = [t]"
proof -
  from assms have "c \<in> set ''0123456789''" by (simp only: digit_cases)
  then have "c = CHR ''0'' \<or> c = CHR ''1'' \<or> c = CHR ''2'' \<or> c = CHR ''3'' \<or> c = CHR ''4''
      \<or> c = CHR ''5'' \<or> c = CHR ''6'' \<or> c = CHR ''7'' \<or> c = CHR ''8'' \<or> c = CHR ''9''"
    by simp
  then show ?thesis
    by (elim disjE) (simp_all only: digit_literals)
qed

lemma bracket_first:
  assumes "x \<noteq> []" and "\<forall>c \<in> set x. c \<noteq> CHR '']''"
  shows "\<exists>ts. rx_match SMI_REGEX_PATTERN (CHR ''['' # x @ CHR '']'' # t) = t # ts"
proof -
  obtain R where R: "SMI_REGEX_PATTERN =
      Alt (Seq (chr_lit CHR ''['') (Seq (Plus (NotLit CHR '']'')) (chr_lit CHR '']''))) R"
    by (simp add: SMI_REGEX_PATTERN_def)
  show ?thesis
    unfolding R rx_match.simps(3) bracket_atom_match [OF assms] by simp
qed

text \<open>
  The first match at the start of a lexeme followed by covered text ends where the lexeme
  ends, except that \<open>>\<close> followed by \<open>>\<close> is matched as \<open>>>\<close>.
\<close>

lemma first_match_other:
  assumes lex: "lexeme (c # l)" and c: "c \<noteq> CHR ''[''"
    and t: "t = [] \<or> (\<exists>d t'. t = d # t' \<and> d \<noteq> CHR ''r'' \<and> d \<noteq> CHR ''l'')"
  shows "rx_match SMI_REGEX_PATTERN (c # l @ t) \<noteq> []
       \<and> (hd (rx_match SMI_REGEX_PATTERN (c # l @ t)) = t
          \<or> (c = CHR ''>'' \<and> l = [] \<and> t = CHR ''>'' # hd (rx_match SMI_REGEX_PATTERN (c # l @ t))))"
proof -
  note D = lex [unfolded lexeme_def SMI_REGEX_PATTERN_def, simplified]
  from t show ?thesis
  proof (elim disjE exE conjE)
    assume "t = []"
    with D c show ?thesis
      by (elim disjE conjE exE)
         ((simp add: digit_match; fail) | (clarsimp simp: SMI_REGEX_PATTERN_def))+
  next
    fix d t'
    assume "t = d # t'" "d \<noteq> CHR ''r''" "d \<noteq> CHR ''l''"
    with D c show ?thesis
      by (elim disjE conjE exE)
         ((simp add: digit_match; fail) | (clarsimp simp: SMI_REGEX_PATTERN_def))+
  qed
qed

lemma first_match:
  assumes "lexeme l" and "covered t"
  shows "\<exists>t' ts tok. rx_match SMI_REGEX_PATTERN (l @ t) = t' # ts \<and> covered t'
           \<and> tok \<noteq> [] \<and> l @ t = tok @ t'"
proof -
  obtain c l' where l: "l = c # l'"
    using assms(1) lexeme_Nil by (cases l) auto
  show ?thesis
  proof (cases "c = CHR ''[''")
    case True
    then obtain x where x: "x \<noteq> []" "\<forall>c \<in> set x. c \<noteq> CHR '']''" "l' = x @ '']''"
      using lexeme_bracket assms(1) l by blast
    obtain ts where "rx_match SMI_REGEX_PATTERN (CHR ''['' # x @ CHR '']'' # t) = t # ts"
      using bracket_first [OF x(1,2)] by blast
    then have "rx_match SMI_REGEX_PATTERN (l @ t) = t # ts \<and> covered t \<and> l \<noteq> [] \<and> l @ t = l @ t"
      using l True x(3) assms(2) by simp
    then show ?thesis by blast
  next
    case False
    have hd_t: "t = [] \<or> (\<exists>d t'. t = d # t' \<and> d \<noteq> CHR ''r'' \<and> d \<noteq> CHR ''l'')"
    proof (cases t)
      case Nil
      then show ?thesis by simp
    next
      case (Cons d t')
      then show ?thesis using covered_hd [of d t'] assms(2) by simp
    qed
    let ?m = "rx_match SMI_REGEX_PATTERN (c # l' @ t)"
    from first_match_other [OF assms(1) [unfolded l] False hd_t]
    have ne: "?m \<noteq> []"
      and alt: "hd ?m = t \<or> (c = CHR ''>'' \<and> l' = [] \<and> t = CHR ''>'' # hd ?m)"
      by simp_all
    from ne obtain t' ts where m: "?m = t' # ts" by (cases ?m) auto
    from alt show ?thesis
    proof
      assume "hd ?m = t"
      then have "rx_match SMI_REGEX_PATTERN (l @ t) = t # ts \<and> covered t \<and> l \<noteq> [] \<and> l @ t = l @ t"
        using m l assms(2) by simp
      then show ?thesis by blast
    next
      assume a: "c = CHR ''>'' \<and> l' = [] \<and> t = CHR ''>'' # hd ?m"
      then have t: "t = CHR ''>'' # t'" using m by simp
      then have "covered t'" using covered_hd [of "CHR ''>''" t'] assms(2) by simp
      then have "rx_match SMI_REGEX_PATTERN (l @ t) = t' # ts \<and> covered t'
                 \<and> ''>>'' \<noteq> [] \<and> l @ t = ''>>'' @ t'"
        using m l a t by simp
      then show ?thesis by blast
    qed
  qed
qed

lemma findall_covered:
  "covered s \<Longrightarrow> concat (findall SMI_REGEX_PATTERN False s) = s"
proof (induction s rule: length_induct)
  case (1 s)
  from "1.prems" show ?case
  proof (cases rule: covered.cases)
    case covered_Nil
    have "rx_match SMI_REGEX_PATTERN [] = []" by (simp add: SMI_REGEX_PATTERN_def)
    then show ?thesis using covered_Nil
      by (simp add: findall.simps [of _ _ "[]"])
  next
    case (covered_lexeme l t)
    then obtain t' ts tok where m: "rx_match SMI_REGEX_PATTERN s = t' # ts"
      and cov: "covered t'" and tok: "tok \<noteq> []" "s = tok @ t'"
      using first_match [of l t] by blast
    have shorter: "length t' < length s" using tok by simp
    then have IH: "concat (findall SMI_REGEX_PATTERN False t') = t'"
      using "1.IH" cov by blast
    have "findall SMI_REGEX_PATTERN False s
            = take (length s - length t') s # findall SMI_REGEX_PATTERN False t'"
      using m shorter by (subst findall.simps) simp
    moreover have "take (length s - length t') s = tok" using tok by simp
    ultimately show ?thesis using IH tok by simp
  qed
qed

lemma covered_concat: "list_all lexeme ls \<Longrightarrow> covered (concat ls)"
  by (induction ls) (auto intro: covered.intros)

lemma tokenize_lossless:
  "list_all lexeme ls \<Longrightarrow> concat (tokenize (concat ls)) = concat ls"
  unfolding tokenize_def by (intro findall_covered covered_concat)

lemma lexeme_examples:
  "lexeme ''Br'' \<and> lexeme ''[C@H]'' \<and> lexeme ''%12'' \<and> lexeme ''>>''
   \<and> lexeme [CHR 0x0A, CHR ''#''] \<and> \<not> lexeme ''#'' \<and> \<not> lexeme ''%1'' \<and> \<not> lexeme ''r''"
  unfolding lexeme_def by code_simp

subsection \<open>Facts about the built-ins\<close>

lemma update_fresh: "k \<notin> fst ` set al \<Longrightarrow> AList.update k v al = al @ [(k, v)]"
  by (induction al) auto

lemma snd_enumerate_from: "map snd (enumerate_from n xs) = xs"
  by (induction xs arbitrary: n) auto

lemma length_enumerate_from: "length (enumerate_from n xs) = length xs"
  by (induction xs arbitrary: n) auto

lemma nth_enumerate_from: "k < length xs \<Longrightarrow> enumerate_from n xs ! k = (n + int k, xs ! k)"
proof (induction xs arbitrary: n k)
  case Nil
  then show ?case by simp
next
  case (Cons x xs)
  then show ?case by (cases k) auto
qed

lemma fold_update_keys:
  "fst ` set (fold (\<lambda>(i, t) d. AList.update (f t) i d) xs acc)
     = fst ` set acc \<union> (f \<circ> snd) ` set xs"
proof (induction xs arbitrary: acc)
  case Nil
  then show ?case by simp
next
  case (Cons x xs)
  obtain i t where x: "x = (i, t)" by (cases x)
  show ?case using Cons.IH [of "AList.update (f t) i acc"]
    by (auto simp: x AList.dom_update)
qed

lemma fold_update_distinct:
  "distinct (map fst acc) \<Longrightarrow>
   distinct (map fst (fold (\<lambda>(i, t) d. AList.update (f t) i d) xs acc))"
proof (induction xs arbitrary: acc)
  case Nil
  then show ?case by simp
next
  case (Cons x xs)
  obtain i t where x: "x = (i, t)" by (cases x)
  show ?case using Cons.IH [of "AList.update (f t) i acc"] Cons.prems
    by (simp add: x AList.distinct_update)
qed

text \<open>Storing tokens that are all new appends them in order, each with its index.\<close>

lemma fold_update_fresh:
  "distinct (map f xs) \<Longrightarrow> f ` set xs \<inter> fst ` set acc = {} \<Longrightarrow>
   fold (\<lambda>(i, t) d. AList.update (f t) i d) (enumerate_from n xs) acc
     = acc @ map (\<lambda>(i, t). (f t, i)) (enumerate_from n xs)"
proof (induction xs arbitrary: acc n)
  case Nil
  then show ?case by simp
next
  case (Cons x xs)
  have fresh: "f x \<notin> fst ` set acc" using Cons.prems(2) by auto
  have step: "AList.update (f x) n acc = acc @ [(f x, n)]"
    using fresh by (rule update_fresh)
  have "f ` set xs \<inter> fst ` set (acc @ [(f x, n)]) = {}"
    using Cons.prems by auto
  with Cons.IH [of "acc @ [(f x, n)]" "n + 1"] Cons.prems(1) show ?case
    by (simp add: step)
qed

text \<open>A value found in \<open>OrderedDict(pairs)\<close> under a key is paired with it in \<open>pairs\<close>.\<close>

lemma OrderedDict_lookup:
  "map_of (fold (\<lambda>(k, v) d. AList.update k v d) ps acc) k = Some v \<Longrightarrow>
     (k, v) \<in> set ps \<or> map_of acc k = Some v"
proof (induction ps arbitrary: acc)
  case Nil
  then show ?case by simp
next
  case (Cons p ps)
  obtain k' v' where p: "p = (k', v')" by (cases p)
  from Cons.prems Cons.IH [of "AList.update k' v' acc"]
  show ?case by (auto simp: p AList.update_conv' split: if_splits)
qed

lemma unused_positions:
  "map fst (filter (\<lambda>(i, v). P v) (enumerate_from n xs)) = [] \<longleftrightarrow> (\<forall>v \<in> set xs. \<not> P v)"
  by (induction xs arbitrary: n) auto

subsection \<open>Facts about the string reconstruction\<close>

lemma join_space: "join '' '' tokens = join_with_space tokens"
  by (induction "'' ''" tokens rule: join.induct) (simp_all add: join_with_space_def)

lemma replace_scan_Nil: "replace_scan old new [] = []"
  by (subst replace_scan.simps) simp

lemma replace_scan_Cons:
  "replace_scan old new (c # cs) =
     (if old \<noteq> [] \<and> take (length old) (c # cs) = old
      then new @ replace_scan old new (drop (length old) (c # cs))
      else c # replace_scan old new cs)"
  by (subst replace_scan.simps) simp

lemma replace_marker: "replace s '' ##'' [] = remove_marker s"
proof -
  have "replace_scan '' ##'' [] s = remove_marker s"
    by (induction s rule: remove_marker.induct)
       (auto simp: replace_scan_Cons replace_scan_Nil)
  then show ?thesis by (simp add: replace_def)
qed

lemma dropWhile_rev_head:
  assumes "\<not> P x"
  shows "dropWhile P (rev (dropWhile P (rev (x # xs)))) = rev (dropWhile P (rev (x # xs)))"
proof -
  have "dropWhile P (rev (x # xs)) = dropWhile P (rev xs) @ [x]"
    using assms by (simp add: dropWhile_append3)
  then show ?thesis using assms by simp
qed

lemma strip_trim: "strip s = trim s"
proof (cases "dropWhile isspace s")
  case Nil
  then have "\<forall>x \<in> set s. isspace x" by (simp add: dropWhile_eq_Nil_conv)
  then have r: "dropWhile isspace (rev s) = []" by (simp add: dropWhile_eq_Nil_conv)
  show ?thesis unfolding strip_def trim_def Nil r by simp
next
  case (Cons x xs)
  then have nx: "\<not> isspace x"
    by (metis hd_dropWhile list.sel(1) list.distinct(1))
  let ?tw = "takeWhile isspace s"
  have s: "s = ?tw @ x # xs" using Cons by (metis takeWhile_dropWhile_id)
  have "rev s = rev (x # xs) @ rev ?tw" by (subst s) simp
  moreover have "x \<in> set (rev (x # xs))" by simp
  ultimately have "dropWhile isspace (rev s) = dropWhile isspace (rev (x # xs)) @ rev ?tw"
    using nx by (metis dropWhile_append1)
  then have "rev (dropWhile isspace (rev s)) = ?tw @ rev (dropWhile isspace (rev (x # xs)))"
    by simp
  moreover have "\<And>y. y \<in> set ?tw \<Longrightarrow> isspace y" by (rule set_takeWhileD [THEN conjunct2])
  ultimately have "trim s = dropWhile isspace (rev (dropWhile isspace (rev (x # xs))))"
    by (simp add: trim_def dropWhile_append2)
  also have "\<dots> = rev (dropWhile isspace (rev (x # xs)))"
    using nx by (rule dropWhile_rev_head)
  finally show ?thesis using Cons by (simp add: strip_def)
qed

subsection \<open>Facts about the vocabulary\<close>

lemma load_vocab_keys:
  assumes "fs vocab_file = Some text" and "load_vocab fs vocab_file = Inr vocab'"
  shows "set (map fst vocab') = (\<lambda>l. rstrip l [newline]) ` set (readlines text)"
proof -
  let ?f = "\<lambda>l. rstrip l [newline]"
  have v: "vocab' = fold (\<lambda>(i, t) d. AList.update (?f t) i d) (enumerate_from 0 (readlines text)) []"
    using assms by (simp add: load_vocab_def Let_def)
  have "fst ` set vocab' = (?f \<circ> snd) ` set (enumerate_from 0 (readlines text))"
    unfolding v fold_update_keys by simp
  also have "\<dots> = ?f ` set (map snd (enumerate_from 0 (readlines text)))"
    unfolding set_map image_comp ..
  finally show ?thesis by (simp add: snd_enumerate_from)
qed

lemma load_vocab_distinct:
  "load_vocab fs vocab_file = Inr vocab' \<Longrightarrow> distinct (map fst vocab')"
  by (auto simp: load_vocab_def Let_def fold_update_distinct split: option.splits)

lemma init_fields:
  assumes "SmilesTokenizer_init fs base vocab_file = Inr self"
  shows "load_vocab fs vocab_file = Inr (vocab self)
       \<and> ids_to_tokens self = OrderedDict (map (\<lambda>(tok, ids). (ids, tok)) (vocab self))"
  using assms
  by (auto simp: SmilesTokenizer_init_def split: if_splits sum.splits)

text \<open>
  The round trip from an id to its token and back needs only that the reverse mapping
  was built from the vocabulary and that the vocabulary is a dictionary.
\<close>

lemma id_token_roundtrip:
  assumes d: "distinct (map fst (vocab self))"
    and inv: "ids_to_tokens self = OrderedDict (map (\<lambda>(tok, ids). (ids, tok)) (vocab self))"
    and i: "i \<in> fst ` set (ids_to_tokens self)"
  shows "convert_token_to_id self (convert_id_to_token self i) = Some i"
proof -
  from i obtain tok where tok: "map_of (ids_to_tokens self) i = Some tok"
    by (metis map_of_eq_None_iff not_Some_eq)
  then have "(i, tok) \<in> set (map (\<lambda>(tok, ids). (ids, tok)) (vocab self))"
    using OrderedDict_lookup [of "map (\<lambda>(tok, ids). (ids, tok)) (vocab self)" "[]" i tok]
    by (simp add: inv OrderedDict_def)
  then have "(tok, i) \<in> set (vocab self)" by auto
  then have "map_of (vocab self) tok = Some i" using d by simp
  then show ?thesis using tok
    by (simp add: convert_token_to_id_def convert_id_to_token_def)
qed

lemma example_init:
  "SmilesTokenizer_init example_fs example_base ''vocab.txt'' = Inr example_tokenizer"
  by code_simp

lemma example_file: "example_fs ''vocab.txt'' = Some example_vocab_text"
  by (simp add: example_fs_def)

lemma example_lines_distinct:
  "distinct (map (\<lambda>l. rstrip l [newline]) (readlines example_vocab_text))"
  by code_simp

subsection \<open>The claims\<close>

text \<open>
  C1: a text made only of what the alternatives of the pattern cover is cut into tokens
  that, put together again, give the text back, nothing skipped; \<open>Br\<close> is one token.
  The code does not do this for \<open>#\<close>: the alternative meant for the triple bond
  begins with the line break of the pattern's source text, so a \<open>#\<close> that no newline
  precedes is in no token. \<open>C#N\<close> gives the tokens \<open>C\<close> and \<open>N\<close>, while \<open>Br\<close> is
  one token, as the claim says. For every text covered by the alternatives as they are
  compiled, the tokens do give the text back (lemma \<open>tokenize_lossless\<close>); \<open>#\<close>
  alone is not among them (lemma \<open>lexeme_examples\<close>).
\<close>

theorem tokenize_drops_triple_bond:
  "tokenize ''C#N'' = [''C'', ''N''] \<and> concat (tokenize ''C#N'') \<noteq> ''C#N''
   \<and> tokenize ''Br'' = [''Br'']"
  by code_simp

text \<open>
  C3: a token that is a key of the vocabulary is converted to its id; any other token
  to what the vocabulary holds for the unknown token; and when the unknown token is a
  key, the result is an id for every token.
\<close>

theorem convert_token_to_id_lookup:
  "(token \<in> set (vocab_list self) \<longrightarrow>
      convert_token_to_id self token = map_of (vocab self) token
      \<and> (\<exists>i. (token, i) \<in> set (vocab self) \<and> convert_token_to_id self token = Some i))
   \<and> (token \<notin> set (vocab_list self) \<longrightarrow>
      convert_token_to_id self token = map_of (vocab self) (unk_token self))
   \<and> (unk_token self \<in> set (vocab_list self) \<longrightarrow> convert_token_to_id self token \<noteq> None)"
proof (cases "map_of (vocab self) token")
  case None
  then have notin: "token \<notin> set (vocab_list self)"
    by (simp add: vocab_list_def map_of_eq_None_iff)
  have "unk_token self \<in> set (vocab_list self) \<longrightarrow> map_of (vocab self) (unk_token self) \<noteq> None"
    by (simp add: vocab_list_def map_of_eq_None_iff)
  with None notin show ?thesis
    by (simp add: convert_token_to_id_def)
next
  case (Some i)
  then have "(token, i) \<in> set (vocab self)"
    by (rule map_of_SomeD)
  moreover from this have "token \<in> set (vocab_list self)"
    by (force simp: vocab_list_def)
  ultimately show ?thesis using Some
    by (simp add: convert_token_to_id_def)
qed

theorem convert_token_to_id_lookup_witness:
  "''C'' \<in> set (vocab_list example_tokenizer)
   \<and> convert_token_to_id example_tokenizer ''C'' = Some 16
   \<and> ''Xe'' \<notin> set (vocab_list example_tokenizer)
   \<and> unk_token example_tokenizer \<in> set (vocab_list example_tokenizer)
   \<and> convert_token_to_id example_tokenizer ''Xe'' = Some 11"
proof -
  have a: "''C'' \<in> set (vocab_list example_tokenizer)" by code_simp
  have b: "map_of (vocab example_tokenizer) ''C'' = Some 16" by code_simp
  have c: "''Xe'' \<notin> set (vocab_list example_tokenizer)" by code_simp
  have d: "unk_token example_tokenizer \<in> set (vocab_list example_tokenizer)" by code_simp
  have e: "map_of (vocab example_tokenizer) (unk_token example_tokenizer) = Some 11" by code_simp
  show ?thesis
    using convert_token_to_id_lookup [of "''C''" example_tokenizer]
      convert_token_to_id_lookup [of "''Xe''" example_tokenizer] a b c d e
    by simp
qed

text \<open>
  C4: for a tokenizer constructed from a vocabulary file whose token strings are
  unique, and every id that is a key of its id-to-token mapping, converting the id to
  its token and the token back to an id gives the id again.
\<close>

theorem id_to_token_to_id:
  assumes "SmilesTokenizer_init fs base vocab_file = Inr self"
    and "fs vocab_file = Some text"
    and "distinct (map (\<lambda>l. rstrip l [newline]) (readlines text))"
    and "i \<in> fst ` set (ids_to_tokens self)"
  shows "convert_token_to_id self (convert_id_to_token self i) = Some i"
  using assms init_fields [OF assms(1)] load_vocab_distinct [of fs vocab_file "vocab self"]
  by (intro id_token_roundtrip) simp_all

theorem id_to_token_to_id_witness:
  "SmilesTokenizer_init example_fs example_base ''vocab.txt'' = Inr example_tokenizer
   \<and> 16 \<in> fst ` set (ids_to_tokens example_tokenizer)
   \<and> convert_id_to_token example_tokenizer 16 = ''C''
   \<and> convert_token_to_id example_tokenizer (convert_id_to_token example_tokenizer 16) = Some 16"
proof -
  have k: "16 \<in> fst ` set (ids_to_tokens example_tokenizer)" by code_simp
  have t: "convert_id_to_token example_tokenizer 16 = ''C''" by code_simp
  show ?thesis
    using id_to_token_to_id [OF example_init example_file example_lines_distinct k]
      example_init k t
    by simp
qed

text \<open>
  C5: when the target length is at least the length of the id sequence, padding on the
  right appends, and padding on the left prepends, as many copies of the pad id as are
  missing, and the result has exactly the target length.
\<close>

theorem add_padding_tokens_pads:
  assumes "int (length token_ids) \<le> len"
  shows "add_padding_tokens self token_ids len right =
           (if right then token_ids @ replicate (nat len - length token_ids) (pad_token_id self)
            else replicate (nat len - length token_ids) (pad_token_id self) @ token_ids)
         \<and> int (length (add_padding_tokens self token_ids len right)) = len"
proof -
  have "nat (len - int (length token_ids)) = nat len - length token_ids"
    using assms by linarith
  then show ?thesis using assms
    by (simp add: add_padding_tokens_def Let_def)
qed

theorem add_padding_tokens_pads_witness:
  "pad_token_id example_tokenizer = 0
   \<and> int (length [1, 2, 3 :: int]) \<le> 5
   \<and> add_padding_tokens example_tokenizer [1, 2, 3] 5 True = [1, 2, 3, 0, 0]
   \<and> add_padding_tokens example_tokenizer [1, 2, 3] 5 False = [0, 0, 1, 2, 3]"
proof -
  have p: "pad_token_id example_tokenizer = 0" by (simp add: example_tokenizer_def)
  have h: "int (length [1, 2, 3 :: int]) \<le> 5" by simp
  have r: "replicate (nat 5 - length [1, 2, 3 :: int]) (0 :: int) = [0, 0]" by code_simp
  show ?thesis
    using add_padding_tokens_pads [OF h, of example_tokenizer True]
      add_padding_tokens_pads [OF h, of example_tokenizer False] p r
    by simp
qed

text \<open>
  C6: the wrapper of one sequence returns a list holding the start id, the ids of the
  sequence in order, and the end id; the wrapper of a pair returns the start id, the ids
  of the first sequence, the separator id, the ids of the second sequence, the separator
  id. Every list that existed before the call, the arguments among them, holds after the
  call what it held before.
\<close>

theorem add_special_tokens_wraps:
  assumes "token_ids_0 < length h" and "token_ids_1 < length h"
  shows "(case add_special_tokens_ids_single_sequence self token_ids_0 h of
            (r, h') \<Rightarrow>
              h' ! r = [cls_token_id self] @ h ! token_ids_0 @ [sep_token_id self]
              \<and> (\<forall>a < length h. h' ! a = h ! a))
       \<and> (case add_special_tokens_ids_sequence_pair self token_ids_0 token_ids_1 h of
            (r, h') \<Rightarrow>
              h' ! r = [cls_token_id self] @ h ! token_ids_0 @ [sep_token_id self]
                         @ h ! token_ids_1 @ [sep_token_id self]
              \<and> (\<forall>a < length h. h' ! a = h ! a))"
  using assms
  by (auto simp: add_special_tokens_ids_single_sequence_def
        add_special_tokens_ids_sequence_pair_def list_display_def list_add_def nth_append)

theorem add_special_tokens_wraps_witness:
  "cls_token_id example_tokenizer = 12 \<and> sep_token_id example_tokenizer = 13
   \<and> (case add_special_tokens_ids_single_sequence example_tokenizer 0 [[5, 6], [7]] of
        (r, h') \<Rightarrow> h' ! r = [12, 5, 6, 13] \<and> h' ! 0 = [5, 6] \<and> h' ! 1 = [7])
   \<and> (case add_special_tokens_ids_sequence_pair example_tokenizer 0 1 [[5, 6], [7]] of
        (r, h') \<Rightarrow> h' ! r = [12, 5, 6, 13, 7, 13] \<and> h' ! 0 = [5, 6] \<and> h' ! 1 = [7])"
proof -
  have c: "cls_token_id example_tokenizer = 12" by (simp add: example_tokenizer_def)
  have s: "sep_token_id example_tokenizer = 13" by (simp add: example_tokenizer_def)
  have l0: "(0::nat) < length [[5, 6], [7 :: int]]" by simp
  have l1: "(1::nat) < length [[5, 6], [7 :: int]]" by simp
  show ?thesis
    using add_special_tokens_wraps [OF l0 l1, of example_tokenizer] c s
    by (auto split: prod.splits)
qed

text \<open>
  C7: the string built from a list of tokens is the tokens joined with a single space,
  with every occurrence of the marker (a space and two hash signs) then removed, and the whitespace
  at both ends then trimmed.
\<close>

theorem convert_tokens_to_string_spec:
  "convert_tokens_to_string tokens = spec_tokens_to_string tokens"
  by (simp add: convert_tokens_to_string_def spec_tokens_to_string_def join_space
      replace_marker strip_trim)

text \<open>
  C8 (as amended): a vocabulary file of N lines that are pairwise different once their
  trailing newlines are stripped is loaded as a vocabulary of N entries whose ids are
  0 to N - 1 in order, the k-th entry being the k-th line, stripped, with the id k.
  For every vocabulary file the claim fails: a line that repeats an earlier one adds no
  entry and gives the earlier entry its own index.
\<close>

theorem load_vocab_distinct_lines:
  assumes "fs vocab_file = Some text"
    and "distinct (map (\<lambda>l. rstrip l [newline]) (readlines text))"
  shows "\<exists>vocab'. load_vocab fs vocab_file = Inr vocab'
           \<and> length vocab' = length (readlines text)
           \<and> map snd vocab' = map int [0..<length (readlines text)]
           \<and> (\<forall>k < length (readlines text).
                vocab' ! k = (rstrip (readlines text ! k) [newline], int k)
                \<and> map_of vocab' (rstrip (readlines text ! k) [newline]) = Some (int k))"
proof -
  let ?ls = "readlines text"
  let ?v = "map (\<lambda>(i, t). (rstrip t [newline], i)) (enumerate_from 0 ?ls)"
  have lv: "load_vocab fs vocab_file = Inr ?v"
    using assms fold_update_fresh [of "\<lambda>l. rstrip l [newline]" ?ls "[]" 0]
    by (simp add: load_vocab_def Let_def)
  have len: "length ?v = length ?ls"
    by (simp add: length_enumerate_from)
  have nth: "?v ! k = (rstrip (?ls ! k) [newline], int k)" if "k < length ?ls" for k
    using that by (simp add: length_enumerate_from nth_enumerate_from)
  have snds: "map snd ?v = map int [0..<length ?ls]"
    by (rule nth_equalityI) (simp_all add: length_enumerate_from nth_enumerate_from)
  have dist: "distinct (map fst ?v)"
    using lv by (rule load_vocab_distinct)
  have look: "map_of ?v (rstrip (?ls ! k) [newline]) = Some (int k)" if "k < length ?ls" for k
  proof -
    have "?v ! k \<in> set ?v" using that len by (metis nth_mem)
    then have "(rstrip (?ls ! k) [newline], int k) \<in> set ?v" using nth [OF that] by simp
    then show ?thesis using dist by (simp add: map_of_eq_Some_iff)
  qed
  show ?thesis using lv len snds nth look by blast
qed

theorem load_vocab_distinct_lines_witness:
  "example_fs ''vocab.txt'' = Some example_vocab_text
   \<and> distinct (map (\<lambda>l. rstrip l [newline]) (readlines example_vocab_text))
   \<and> length (readlines example_vocab_text) = 24
   \<and> (\<exists>vocab'. load_vocab example_fs ''vocab.txt'' = Inr vocab'
         \<and> length vocab' = 24 \<and> map snd vocab' = map int [0..<24])"
proof -
  have n: "length (readlines example_vocab_text) = 24" by code_simp
  show ?thesis
    using load_vocab_distinct_lines [of example_fs "''vocab.txt''" example_vocab_text]
      example_file example_lines_distinct n
    by auto
qed

theorem load_vocab_repeated_line:
  "length (readlines [CHR ''C'', newline, CHR ''C'', newline]) = 2
   \<and> load_vocab (Map.empty(''vocab.txt'' \<mapsto> [CHR ''C'', newline, CHR ''C'', newline]))
        ''vocab.txt'' = Inr [(''C'', 1)]"
  by (simp add: load_vocab_def rstrip_def newline_def)

text \<open>
  C9: given that the vocabulary file exists, the constructor returns a tokenizer exactly
  when some line of the file, its newline stripped, starts with \<open>[unused\<close>; that token is
  then in the vocabulary. When no line does, \<open>max\<close> is applied to the empty list and the
  constructor raises its \<open>ValueError\<close>.
\<close>

theorem init_needs_unused_token:
  assumes "fs vocab_file = Some text"
  shows "if \<exists>line \<in> set (readlines text). startswith (rstrip line [newline]) ''[unused''
         then \<exists>self. SmilesTokenizer_init fs base vocab_file = Inr self
                \<and> (\<exists>v \<in> set (vocab_list self). startswith v ''[unused'')
         else SmilesTokenizer_init fs base vocab_file = Inl ValueError_max_empty"
proof -
  obtain vocab' where lv: "load_vocab fs vocab_file = Inr vocab'"
    using assms by (simp add: load_vocab_def Let_def)
  have keys: "set (map fst vocab') = (\<lambda>l. rstrip l [newline]) ` set (readlines text)"
    using assms lv by (rule load_vocab_keys)
  let ?pos = "map fst (filter (\<lambda>(i, v). startswith v ''[unused'')
                         (enumerate_from 0 (map fst vocab')))"
  have empty: "?pos = [] \<longleftrightarrow>
      \<not> (\<exists>line \<in> set (readlines text). startswith (rstrip line [newline]) ''[unused'')"
    unfolding unused_positions keys by blast
  show ?thesis
  proof (cases "?pos")
    case Nil
    then have "py_max ?pos = Inl ValueError_max_empty" by (simp add: py_max_def)
    then show ?thesis using Nil empty assms lv
      by (simp add: SmilesTokenizer_init_def)
  next
    case (Cons p ps)
    then obtain highest where "py_max ?pos = Inr highest" by (simp add: py_max_def)
    moreover have "\<exists>v \<in> set (map fst vocab'). startswith v ''[unused''"
      using Cons empty keys by auto
    ultimately show ?thesis using Cons empty assms lv
      by (auto simp: SmilesTokenizer_init_def vocab_list_def)
  qed
qed

theorem init_needs_unused_token_witness:
  "(Map.empty(''v.txt'' \<mapsto> ''C'')) ''v.txt'' = Some ''C''
   \<and> SmilesTokenizer_init (Map.empty(''v.txt'' \<mapsto> ''C'')) example_base ''v.txt''
       = Inl ValueError_max_empty
   \<and> example_fs ''vocab.txt'' = Some example_vocab_text
   \<and> (\<exists>self. SmilesTokenizer_init example_fs example_base ''vocab.txt'' = Inr self)"
proof -
  have f: "(Map.empty(''v.txt'' \<mapsto> ''C'')) ''v.txt'' = Some ''C''" by simp
  have no: "\<not> (\<exists>line \<in> set (readlines ''C''). startswith (rstrip line [newline]) ''[unused'')"
    by code_simp
  have yes: "\<exists>line \<in> set (readlines example_vocab_text).
               startswith (rstrip line [newline]) ''[unused''"
    by code_simp
  show ?thesis
    using init_needs_unused_token [of "Map.empty(''v.txt'' \<mapsto> ''C'')" "''v.txt''" "''C''" example_base]
      init_needs_unused_token [of example_fs "''vocab.txt''" example_vocab_text example_base]
      f no yes example_file
    by auto
qed

text \<open>
  C10: when the target length is at most the length of the id sequence, nothing is
  added on either side: the result is the sequence as it was given, neither cut short
  nor refused.
\<close>

theorem add_padding_tokens_short_target:
  assumes "len \<le> int (length token_ids)"
  shows "add_padding_tokens self token_ids len right = token_ids"
  using assms by (simp add: add_padding_tokens_def)

theorem add_padding_tokens_short_target_witness:
  "(2 :: int) \<le> int (length [1, 2, 3 :: int])
   \<and> add_padding_tokens example_tokenizer [1, 2, 3] 2 True = [1, 2, 3]
   \<and> add_padding_tokens example_tokenizer [1, 2, 3] 2 False = [1, 2, 3]
   \<and> add_padding_tokens example_tokenizer [1, 2, 3] (- 4) True = [1, 2, 3]"
proof -
  have h: "(2 :: int) \<le> int (length [1, 2, 3 :: int])" by simp
  have g: "(- 4 :: int) \<le> int (length [1, 2, 3 :: int])" by simp
  show ?thesis
    using add_padding_tokens_short_target [OF h, of example_tokenizer True]
      add_padding_tokens_short_target [OF h, of example_tokenizer False]
      add_padding_tokens_short_target [OF g, of example_tokenizer True] h
    by simp
qed

subsection \<open>The worked example\<close>

text \<open>
  C2: the tokenizer splits \<open>CCC(CC)COC(=O)[C@H](C)N\<close> into its nineteen tokens, the
  bracket atom \<open>[C@H]\<close> being one of them.
\<close>

theorem tokenize_example:
  "tokenize ''CCC(CC)COC(=O)[C@H](C)N'' =
     [''C'', ''C'', ''C'', ''('', ''C'', ''C'', '')'', ''C'', ''O'', ''C'', ''('', ''='',
      ''O'', '')'', ''[C@H]'', ''('', ''C'', '')'', ''N'']"
  by code_simp

end
